theory Spec2Isabelle
  imports Complex_Main
begin

section \<open>The separate-chaining hash table of \<^verbatim>\<open>src/hash_table.cpp\<close>\<close>

text \<open>
  The class \<^verbatim>\<open>itis::HashTable\<close> keeps a \<^verbatim>\<open>std::vector\<close> of buckets, each bucket a
  \<^verbatim>\<open>std::list\<close> of \<^verbatim>\<open>(int, std::string)\<close> pairs, a counter \<^verbatim>\<open>num_keys_\<close> and the load
  factor given at construction. The model below follows the member functions one by one.

  Conventions of the model.
  \<^item> C++ \<^verbatim>\<open>int\<close> values are HOL integers. The two places where the source computes with
    them (\<^verbatim>\<open>num_keys_++\<close> and \<^verbatim>\<open>capacity() * kGrowthCoefficient\<close>) return the error
    \<open>IntOverflow\<close> where the 32-bit signed result would not fit, so a run that returns a
    table never left the range of \<^verbatim>\<open>int\<close>.
  \<^item> A key is any HOL integer; the keys of the source are those of the 32-bit range. Keys
    are only compared and hashed, so nothing depends on the bound.
  \<^item> An index outside a vector is undefined behaviour in the source; the model returns
    the error \<open>IndexOutOfBounds\<close> there.
  \<^item> The load factor is a real number and the quotient
    \<^verbatim>\<open>static_cast<double>(num_keys_) / capacity()\<close> is taken exactly; the rounding of the
    IEEE division is not modelled.
  \<^item> \<^verbatim>\<open>utils::hash\<close> is not part of the source file. Every operation takes the hash
    function as its first argument \<open>hf\<close>; \<open>utils_hash\<close> below is the instance the
    specification describes.
  \<^item> The members \<^verbatim>\<open>buckets_\<close>, \<^verbatim>\<open>num_keys_\<close> and \<^verbatim>\<open>load_factor_\<close> lose their final
    underscore, and the accessors \<^verbatim>\<open>size()\<close>, \<^verbatim>\<open>empty()\<close>, \<^verbatim>\<open>values()\<close> and
    \<^verbatim>\<open>load_factor()\<close> carry the suffix \<open>_ht\<close>.
\<close>

subsection \<open>Data model\<close>

type_synonym bucket = "(int \<times> string) list"

record hash_table =
  buckets :: "bucket list"
  num_keys :: int
  load_factor :: real

datatype error = LogicError string | IndexOutOfBounds | IntOverflow

type_synonym hash_fn = "int \<Rightarrow> int \<Rightarrow> int"

definition INT_MAX :: int where
  "INT_MAX = 2147483647"

text \<open>
  Modelled from the spec: the constant \<^verbatim>\<open>kGrowthCoefficient\<close> is declared in the header,
  which is not among the sources. The specification gives it the value 2.
\<close>

definition kGrowthCoefficient :: int where
  "kGrowthCoefficient = 2"

text \<open>
  Modelled from the spec: \<^verbatim>\<open>utils::hash(key, size)\<close> is defined outside the source file.
  The specification describes it as a deterministic integer hash of the key reduced
  modulo the length of the bucket sequence, with a result \<open>0 \<le> index < size\<close>. The
  integer hash taken here is the key itself; \<open>mod\<close> on HOL integers has the sign of the
  modulus, so the result is never negative for a positive size.
\<close>

definition utils_hash :: hash_fn where
  "utils_hash key sz = key mod sz"

subsection \<open>Accessors\<close>

definition capacity :: "hash_table \<Rightarrow> int" where
  "capacity t = int (length (buckets t))"

definition size_ht :: "hash_table \<Rightarrow> int" where
  "size_ht t = num_keys t"

definition empty_ht :: "hash_table \<Rightarrow> bool" where
  "empty_ht t = (size_ht t = 0)"

definition load_factor_ht :: "hash_table \<Rightarrow> real" where
  "load_factor_ht t = load_factor t"

definition keys :: "hash_table \<Rightarrow> int set" where
  "keys t = set (map fst (concat (buckets t)))"

definition values_ht :: "hash_table \<Rightarrow> string list" where
  "values_ht t = map snd (concat (buckets t))"

definition hash :: "hash_fn \<Rightarrow> hash_table \<Rightarrow> int \<Rightarrow> int" where
  "hash hf t key = hf key (int (length (buckets t)))"

subsection \<open>Construction\<close>

text \<open>
  Modelled from the spec: the constructor's initialiser list sets only \<^verbatim>\<open>load_factor_\<close>;
  the initial value of \<^verbatim>\<open>num_keys_\<close> comes from the member declaration in the header,
  which is not among the sources. The specification says construction sets the key
  count to 0.
\<close>

definition HashTable :: "int \<Rightarrow> real \<Rightarrow> error + hash_table" where
  "HashTable cap lf =
     (if cap \<le> 0 then Inl (LogicError ''hash table capacity must be greater than zero'')
      else if lf \<le> 0 \<or> lf > 1
        then Inl (LogicError ''hash table load factor must be in range [0...1]'')
      else Inr \<lparr>buckets = replicate (nat cap) [], num_keys = 0, load_factor = lf\<rparr>)"

subsection \<open>Search\<close>

text \<open>The range-for loop of \<^verbatim>\<open>Search\<close>: the value of the first pair with the key.\<close>

fun search_bucket :: "int \<Rightarrow> bucket \<Rightarrow> string option" where
  "search_bucket key [] = None"
| "search_bucket key (pair # rest) =
     (if fst pair = key then Some (snd pair) else search_bucket key rest)"

definition Search :: "hash_fn \<Rightarrow> hash_table \<Rightarrow> int \<Rightarrow> error + string option" where
  "Search hf t key =
     (let index = hash hf t key in
      if index < 0 \<or> capacity t \<le> index then Inl IndexOutOfBounds
      else Inr (search_bucket key (buckets t ! nat index)))"

definition ContainsKey :: "hash_fn \<Rightarrow> hash_table \<Rightarrow> int \<Rightarrow> error + bool" where
  "ContainsKey hf t key =
     (case Search hf t key of Inl e \<Rightarrow> Inl e | Inr r \<Rightarrow> Inr (r \<noteq> None))"

subsection \<open>Put\<close>

text \<open>
  The first loop of \<^verbatim>\<open>Put\<close>: the first pair with the key gets the new value and the flag
  is set; the loop stops there.
\<close>

fun overwrite :: "int \<Rightarrow> string \<Rightarrow> bucket \<Rightarrow> bucket \<times> bool" where
  "overwrite key val [] = ([], False)"
| "overwrite key val (pair # rest) =
     (if fst pair = key then ((fst pair, val) # rest, True)
      else (case overwrite key val rest of (rest', flag) \<Rightarrow> (pair # rest', flag)))"

text \<open>The loop followed by \<^verbatim>\<open>emplace_back\<close> when the flag is not set.\<close>

definition put_bucket :: "int \<Rightarrow> string \<Rightarrow> bucket \<Rightarrow> bucket" where
  "put_bucket key val b =
     (case overwrite key val b of
        (b', flag) \<Rightarrow> if \<not> flag then b' @ [(key, val)] else b')"

text \<open>
  The loop over the old buckets inside the resize: a non-empty list is assigned, whole,
  to the slot of the new vector that the key of its front pair hashes to.
\<close>

fun rehash :: "hash_fn \<Rightarrow> bucket list \<Rightarrow> bucket list \<Rightarrow> error + bucket list" where
  "rehash hf [] new_buckets = Inr new_buckets"
| "rehash hf (l # rest) new_buckets =
     (case l of
        [] \<Rightarrow> rehash hf rest new_buckets
      | front # _ \<Rightarrow>
          (let new_index = hf (fst front) (int (length new_buckets)) in
           if new_index < 0 \<or> int (length new_buckets) \<le> new_index then Inl IndexOutOfBounds
           else rehash hf rest (new_buckets[nat new_index := l])))"

definition Put :: "hash_fn \<Rightarrow> hash_table \<Rightarrow> int \<Rightarrow> string \<Rightarrow> error + hash_table" where
  "Put hf t key val =
     (let index = hash hf t key in
      if index < 0 \<or> capacity t \<le> index then Inl IndexOutOfBounds
      else
        let bs = (buckets t)[nat index := put_bucket key val (buckets t ! nat index)] in
        if num_keys t = INT_MAX then Inl IntOverflow
        else
          let n = num_keys t + 1 in
          if real_of_int n / real_of_int (capacity t) \<ge> load_factor t then
            if capacity t * kGrowthCoefficient > INT_MAX then Inl IntOverflow
            else
              (case rehash hf bs (replicate (nat (capacity t * kGrowthCoefficient)) []) of
                 Inl e \<Rightarrow> Inl e
               | Inr new_buckets \<Rightarrow> Inr (t\<lparr>buckets := new_buckets, num_keys := n\<rparr>))
          else Inr (t\<lparr>buckets := bs, num_keys := n\<rparr>))"

subsection \<open>Remove\<close>

text \<open>The loop of \<^verbatim>\<open>Remove\<close>: a copy of the first pair with the key, if there is one.\<close>

fun find_pair :: "int \<Rightarrow> bucket \<Rightarrow> (int \<times> string) option" where
  "find_pair key [] = None"
| "find_pair key (pair # rest) =
     (if fst pair = key then Some pair else find_pair key rest)"

text \<open>
  \<^verbatim>\<open>std::list::remove\<close> erases every element equal to its argument, which is
  \<open>removeAll\<close>.
\<close>

definition Remove ::
  "hash_fn \<Rightarrow> hash_table \<Rightarrow> int \<Rightarrow> error + (string option \<times> hash_table)" where
  "Remove hf t key =
     (let index = hash hf t key in
      if index < 0 \<or> capacity t \<le> index then Inl IndexOutOfBounds
      else
        (case find_pair key (buckets t ! nat index) of
           Some pair_to_remove \<Rightarrow>
             Inr (Some (snd pair_to_remove),
                  t\<lparr>buckets :=
                      (buckets t)[nat index :=
                         removeAll pair_to_remove (buckets t ! nat index)]\<rparr>)
         | None \<Rightarrow> Inr (None, t)))"

subsection \<open>Sequences of calls\<close>

datatype call = PutCall int string | RemoveCall int

fun is_put :: "call \<Rightarrow> bool" where
  "is_put (PutCall key val) = True"
| "is_put (RemoveCall key) = False"

fun call_key :: "call \<Rightarrow> int" where
  "call_key (PutCall key val) = key"
| "call_key (RemoveCall key) = key"

fun step :: "hash_fn \<Rightarrow> hash_table \<Rightarrow> call \<Rightarrow> error + hash_table" where
  "step hf t (PutCall key val) = Put hf t key val"
| "step hf t (RemoveCall key) =
     (case Remove hf t key of Inl e \<Rightarrow> Inl e | Inr (r, t') \<Rightarrow> Inr t')"

fun run :: "hash_fn \<Rightarrow> hash_table \<Rightarrow> call list \<Rightarrow> error + hash_table" where
  "run hf t [] = Inr t"
| "run hf t (c # cs) =
     (case step hf t c of Inl e \<Rightarrow> Inl e | Inr t' \<Rightarrow> run hf t' cs)"

text \<open>A freshly constructed table followed by a sequence of calls.\<close>

definition fresh_run :: "hash_fn \<Rightarrow> int \<Rightarrow> real \<Rightarrow> call list \<Rightarrow> error + hash_table" where
  "fresh_run hf cap lf cs =
     (case HashTable cap lf of Inl e \<Rightarrow> Inl e | Inr t \<Rightarrow> run hf t cs)"

subsection \<open>Notions used in the statements\<close>

text \<open>
  The two intermediate values of \<^verbatim>\<open>Put\<close>: the bucket vector after the pair has been
  written (the local \<open>bs\<close> of \<open>Put\<close>), and the test of the load factor against the
  incremented counter.
\<close>

definition inserted :: "hash_fn \<Rightarrow> hash_table \<Rightarrow> int \<Rightarrow> string \<Rightarrow> bucket list" where
  "inserted hf t key val =
     (buckets t)[nat (hash hf t key) :=
        put_bucket key val (buckets t ! nat (hash hf t key))]"

definition grows :: "hash_table \<Rightarrow> bool" where
  "grows t = (load_factor t \<le> real_of_int (num_keys t + 1) / real_of_int (capacity t))"

text \<open>A hash function whose result is an index of a vector of the given positive size.\<close>

definition valid_hash :: "hash_fn \<Rightarrow> bool" where
  "valid_hash hf = (\<forall>key sz. 0 < sz \<longrightarrow> 0 \<le> hf key sz \<and> hf key sz < sz)"

text \<open>
  The slot of a vector of \<open>m\<close> buckets that the resize assigns the list \<open>l\<close> to: the hash
  of the key of its front pair; an empty list is assigned nowhere.
\<close>

fun target :: "hash_fn \<Rightarrow> int \<Rightarrow> bucket \<Rightarrow> int option" where
  "target hf m [] = None"
| "target hf m (front # rest) = Some (hf (fst front) m)"

text \<open>
  What whole-bucket relocation leaves in slot \<open>j\<close> of the new vector: the last of the old
  buckets whose target is \<open>j\<close>, and the empty list when there is none.
\<close>

definition relocated :: "hash_fn \<Rightarrow> int \<Rightarrow> bucket list \<Rightarrow> nat \<Rightarrow> bucket" where
  "relocated hf m old j =
     (case filter (\<lambda>l. target hf m l = Some (int j)) old of
        [] \<Rightarrow> []
      | l # ls \<Rightarrow> last (l # ls))"

text \<open>
  The loop of the resize, stopped after it has handled the old bucket at position \<open>i\<close>,
  has assigned that bucket, whole, to the slot that is its target.
\<close>

definition assigned_whole :: "hash_fn \<Rightarrow> bucket list \<Rightarrow> bucket list \<Rightarrow> nat \<Rightarrow> bool" where
  "assigned_whole hf old new i =
     (case rehash hf (take (Suc i) old) new of
        Inl e \<Rightarrow> False
      | Inr mid \<Rightarrow>
          (case target hf (int (length new)) (old ! i) of
             None \<Rightarrow> False
           | Some k \<Rightarrow> 0 \<le> k \<and> k < int (length mid) \<and> mid ! nat k = old ! i))"

text \<open>The targets of the non-empty old buckets, in the order of the loop.\<close>

definition targets :: "hash_fn \<Rightarrow> int \<Rightarrow> bucket list \<Rightarrow> int list" where
  "targets hf m old = concat (map (\<lambda>l. case target hf m l of None \<Rightarrow> [] | Some i \<Rightarrow> [i]) old)"

text \<open>
  The call \<open>Put hf t key val\<close> resizes and two non-empty old buckets have the same target
  in the new vector.
\<close>

definition resize_collision :: "hash_fn \<Rightarrow> hash_table \<Rightarrow> int \<Rightarrow> string \<Rightarrow> bool" where
  "resize_collision hf t key val =
     (grows t \<and>
      \<not> distinct (targets hf (capacity t * kGrowthCoefficient) (inserted hf t key val)))"

text \<open>The number of pairs stored in all buckets.\<close>

definition total_pairs :: "hash_table \<Rightarrow> nat" where
  "total_pairs t = length (concat (buckets t))"

text \<open>
  Every non-empty bucket sits in the slot that the key of its front pair hashes to
  (the size \<open>m\<close> is that of the vector).
\<close>

definition front_home :: "hash_fn \<Rightarrow> int \<Rightarrow> bucket list \<Rightarrow> bool" where
  "front_home hf m bs = (\<forall>i < length bs. bs ! i \<noteq> [] \<longrightarrow> target hf m (bs ! i) = Some (int i))"

subsection \<open>Facts about the bucket loops\<close>

lemma overwrite_keys: "map fst (fst (overwrite key val b)) = map fst b"
  by (induction b) (auto split: prod.splits)

lemma overwrite_length: "length (fst (overwrite key val b)) = length b"
  by (induction b) (auto split: prod.splits)

lemma overwrite_flag: "snd (overwrite key val b) = (key \<in> fst ` set b)"
  by (induction b) (auto split: prod.splits)

lemma put_bucket_eq:
  "put_bucket key val b =
     (if key \<in> fst ` set b then fst (overwrite key val b)
      else fst (overwrite key val b) @ [(key, val)])"
  using overwrite_flag [of key val b]
  by (auto simp: put_bucket_def split: prod.splits)

lemma put_bucket_length:
  "length (put_bucket key val b) = (if key \<in> fst ` set b then length b else Suc (length b))"
  by (simp add: put_bucket_eq overwrite_length)

lemma put_bucket_keys:
  "map fst (put_bucket key val b) = (if key \<in> fst ` set b then map fst b else map fst b @ [key])"
  by (simp add: put_bucket_eq overwrite_keys)

lemma put_bucket_distinct:
  "distinct (map fst b) \<Longrightarrow> distinct (map fst (put_bucket key val b))"
  by (simp add: put_bucket_keys)

lemma put_bucket_not_Nil: "put_bucket key val b \<noteq> []"
proof
  assume "put_bucket key val b = []"
  then have "map fst (put_bucket key val b) = []" by simp
  then show False by (simp add: put_bucket_keys split: if_splits)
qed

lemma rehash_length: "rehash hf old new = Inr res \<Longrightarrow> length res = length new"
  by (induction old arbitrary: new) (auto simp: Let_def split: list.splits if_splits)

subsection \<open>The operations, case by case\<close>

lemma Put_unfold:
  "Put hf t key val =
     (if hash hf t key < 0 \<or> capacity t \<le> hash hf t key then Inl IndexOutOfBounds
      else if num_keys t = INT_MAX then Inl IntOverflow
      else if grows t then
        (if capacity t * kGrowthCoefficient > INT_MAX then Inl IntOverflow
         else
           (case rehash hf (inserted hf t key val)
                   (replicate (nat (capacity t * kGrowthCoefficient)) []) of
              Inl e \<Rightarrow> Inl e
            | Inr new_buckets \<Rightarrow>
                Inr (t\<lparr>buckets := new_buckets, num_keys := num_keys t + 1\<rparr>)))
      else Inr (t\<lparr>buckets := inserted hf t key val, num_keys := num_keys t + 1\<rparr>))"
  by (simp add: Put_def Let_def inserted_def grows_def)

lemma Put_Inr_cases:
  assumes "Put hf t key val = Inr t'"
  obtains
    (keep) "\<not> grows t" and "t' = t\<lparr>buckets := inserted hf t key val, num_keys := num_keys t + 1\<rparr>"
  | (grow) new_buckets where "grows t"
      and "rehash hf (inserted hf t key val)
             (replicate (nat (capacity t * kGrowthCoefficient)) []) = Inr new_buckets"
      and "t' = t\<lparr>buckets := new_buckets, num_keys := num_keys t + 1\<rparr>"
  using assms by (auto simp: Put_unfold split: if_splits sum.splits)

lemma Put_in_range:
  assumes "Put hf t key val = Inr t'"
  shows "0 \<le> hash hf t key" and "hash hf t key < capacity t"
  using assms by (auto simp: Put_unfold split: if_splits)

lemma inserted_length: "length (inserted hf t key val) = length (buckets t)"
  by (simp add: inserted_def)

lemma Put_num_keys: "Put hf t key val = Inr t' \<Longrightarrow> num_keys t' = num_keys t + 1"
  by (erule Put_Inr_cases) simp_all

lemma Put_load_factor: "Put hf t key val = Inr t' \<Longrightarrow> load_factor t' = load_factor t"
  by (erule Put_Inr_cases) simp_all

lemma Put_length:
  assumes "Put hf t key val = Inr t'"
  shows "length (buckets t') =
           (if grows t then nat (capacity t * kGrowthCoefficient) else length (buckets t))"
  using assms
proof (cases rule: Put_Inr_cases)
  case keep
  then show ?thesis by (simp add: inserted_length)
next
  case (grow new_buckets)
  then show ?thesis using rehash_length [OF grow(2)] by simp
qed

lemma Remove_unfold:
  "Remove hf t key =
     (if hash hf t key < 0 \<or> capacity t \<le> hash hf t key then Inl IndexOutOfBounds
      else
        (case find_pair key (buckets t ! nat (hash hf t key)) of
           Some pair_to_remove \<Rightarrow>
             Inr (Some (snd pair_to_remove),
                  t\<lparr>buckets :=
                      (buckets t)[nat (hash hf t key) :=
                         removeAll pair_to_remove (buckets t ! nat (hash hf t key))]\<rparr>)
         | None \<Rightarrow> Inr (None, t)))"
  by (simp add: Remove_def Let_def)

lemma Remove_Inr_cases:
  assumes "Remove hf t key = Inr (r, t')"
  obtains
    (miss) "r = None" and "t' = t"
  | (hit) p where "r = Some (snd p)"
      and "t' = t\<lparr>buckets := (buckets t)[nat (hash hf t key) :=
                     removeAll p (buckets t ! nat (hash hf t key))]\<rparr>"
  using assms by (auto simp: Remove_unfold split: if_splits option.splits)

lemma Remove_num_keys: "Remove hf t key = Inr (r, t') \<Longrightarrow> num_keys t' = num_keys t"
  by (erule Remove_Inr_cases) simp_all

lemma Remove_length: "Remove hf t key = Inr (r, t') \<Longrightarrow> length (buckets t') = length (buckets t)"
  by (erule Remove_Inr_cases) simp_all

lemma step_cases:
  assumes "step hf t c = Inr t'"
  obtains
    (put) key val where "c = PutCall key val" and "Put hf t key val = Inr t'"
  | (remove) key r where "c = RemoveCall key" and "Remove hf t key = Inr (r, t')"
  using assms by (cases c) (auto split: sum.splits prod.splits)

text \<open>A property kept by every call is kept by a run.\<close>

lemma run_invariant:
  assumes "run hf t cs = Inr t'" and "P t"
    and "\<And>s c s'. P s \<Longrightarrow> c \<in> set cs \<Longrightarrow> step hf s c = Inr s' \<Longrightarrow> P s'"
  shows "P t'"
  using assms
proof (induction cs arbitrary: t)
  case Nil
  then show ?case by simp
next
  case (Cons c cs)
  from Cons.prems(1) obtain s where s: "step hf t c = Inr s" and r: "run hf s cs = Inr t'"
    by (auto split: sum.splits)
  have "P s" by (rule Cons.prems(3) [OF Cons.prems(2) _ s]) simp
  moreover have "\<And>s c' s'. P s \<Longrightarrow> c' \<in> set cs \<Longrightarrow> step hf s c' = Inr s' \<Longrightarrow> P s'"
    using Cons.prems(3) by (meson list.set_intros(2))
  ultimately show ?case using Cons.IH [OF r] by blast
qed

lemma fresh_run_cases:
  assumes "fresh_run hf cap lf cs = Inr t"
  obtains t0 where "HashTable cap lf = Inr t0" and "run hf t0 cs = Inr t"
  using assms by (auto simp: fresh_run_def split: sum.splits)

lemma HashTable_Inr:
  "HashTable cap lf = Inr t \<longleftrightarrow>
     0 < cap \<and> 0 < lf \<and> lf \<le> 1 \<and>
     t = \<lparr>buckets = replicate (nat cap) [], num_keys = 0, load_factor = lf\<rparr>"
  by (auto simp: HashTable_def)

subsection \<open>Invariants of a table built by the constructor and a run of calls\<close>

lemma step_length_pos:
  assumes "step hf t c = Inr t'" and "buckets t \<noteq> []"
  shows "buckets t' \<noteq> []"
  using assms(1)
proof (cases rule: step_cases)
  case (put key val)
  have "0 < capacity t" using assms(2) by (simp add: capacity_def)
  then have "0 < length (buckets t')"
    using Put_length [OF put(2)] assms(2) by (simp add: kGrowthCoefficient_def)
  then show ?thesis by simp
next
  case (remove key r)
  then show ?thesis using Remove_length [OF remove(2)] assms(2) by auto
qed

lemma fresh_run_buckets_not_Nil:
  assumes "fresh_run hf cap lf cs = Inr t"
  shows "buckets t \<noteq> []"
proof -
  from assms obtain t0 where t0: "HashTable cap lf = Inr t0" and r: "run hf t0 cs = Inr t"
    by (rule fresh_run_cases)
  have "buckets t0 \<noteq> []" using t0 by (auto simp: HashTable_Inr)
  with r show ?thesis
    by (rule run_invariant) (rule step_length_pos)
qed

lemma step_num_keys:
  assumes "step hf t c = Inr t'"
  shows "num_keys t' = num_keys t + (if is_put c then 1 else 0)"
  using assms
  by (cases rule: step_cases) (simp_all add: Put_num_keys Remove_num_keys)

lemma run_num_keys:
  "run hf t cs = Inr t' \<Longrightarrow> num_keys t' = num_keys t + int (length (filter is_put cs))"
proof (induction cs arbitrary: t)
  case Nil
  then show ?case by simp
next
  case (Cons c cs)
  from Cons.prems obtain s where s: "step hf t c = Inr s" and r: "run hf s cs = Inr t'"
    by (auto split: sum.splits)
  show ?case using Cons.IH [OF r] step_num_keys [OF s] by simp
qed

text \<open>
  C5. After any sequence of \<^verbatim>\<open>Put\<close> and \<^verbatim>\<open>Remove\<close> calls on a freshly constructed table,
  \<^verbatim>\<open>size()\<close> is the number of \<^verbatim>\<open>Put\<close> calls of the sequence: every \<^verbatim>\<open>Put\<close> adds one to
  the counter, whether the key was new or present, and \<^verbatim>\<open>Remove\<close> leaves it as it is.
\<close>

theorem size_counts_Put_calls:
  assumes "fresh_run hf cap lf cs = Inr t"
  shows "size_ht t = int (length (filter is_put cs))"
proof -
  from assms obtain t0 where t0: "HashTable cap lf = Inr t0" and r: "run hf t0 cs = Inr t"
    by (rule fresh_run_cases)
  have "num_keys t0 = 0" using t0 by (auto simp: HashTable_Inr)
  then show ?thesis using run_num_keys [OF r] by (simp add: size_ht_def)
qed

theorem size_counts_Put_calls_witness:
  "fresh_run utils_hash 4 0.75
     [PutCall 1 ''a'', PutCall 1 ''b'', RemoveCall 1, RemoveCall 7, PutCall 5 ''c''] =
   Inr \<lparr>buckets = [[], [], [], [], [], [(5, ''c'')], [], []], num_keys = 3, load_factor = 0.75\<rparr> \<and>
   size_ht \<lparr>buckets = [[], [], [], [], [], [(5, ''c'')], [], []], num_keys = 3, load_factor = 0.75\<rparr> =
     int (length (filter is_put
       [PutCall 1 ''a'', PutCall 1 ''b'', RemoveCall 1, RemoveCall 7, PutCall 5 ''c'']))"
proof -
  have run: "fresh_run utils_hash 4 0.75
     [PutCall 1 ''a'', PutCall 1 ''b'', RemoveCall 1, RemoveCall 7, PutCall 5 ''c''] =
   Inr \<lparr>buckets = [[], [], [], [], [], [(5, ''c'')], [], []], num_keys = 3, load_factor = 0.75\<rparr>"
    by code_simp
  show ?thesis using run size_counts_Put_calls [OF run] by simp
qed

subsection \<open>The counters stay inside the range of \<^verbatim>\<open>int\<close>\<close>

text \<open>
  A table that a run returns has a capacity and a key count that fit a 32-bit signed
  integer, so the \<^verbatim>\<open>static_cast<int>\<close> of the vector size in \<^verbatim>\<open>hash\<close> and \<^verbatim>\<open>capacity\<close>
  is exact, as the model takes it.
\<close>

lemma Put_no_overflow:
  assumes "Put hf t key val = Inr t'"
  shows "num_keys t \<noteq> INT_MAX" and "grows t \<Longrightarrow> capacity t * kGrowthCoefficient \<le> INT_MAX"
  using assms by (auto simp: Put_unfold split: if_splits)

lemma step_within_int:
  assumes "step hf t c = Inr t'"
    and "capacity t \<le> INT_MAX \<and> num_keys t \<le> INT_MAX"
  shows "capacity t' \<le> INT_MAX \<and> num_keys t' \<le> INT_MAX"
  using assms(1)
proof (cases rule: step_cases)
  case (put key val)
  have n: "num_keys t' \<le> INT_MAX"
    using Put_num_keys [OF put(2)] Put_no_overflow(1) [OF put(2)] assms(2) by simp
  have "0 \<le> capacity t" by (simp add: capacity_def)
  then have "capacity t' = (if grows t then capacity t * kGrowthCoefficient else capacity t)"
    using Put_length [OF put(2)] by (simp add: capacity_def kGrowthCoefficient_def)
  then have "capacity t' \<le> INT_MAX"
    using Put_no_overflow(2) [OF put(2)] assms(2) by (simp split: if_splits)
  with n show ?thesis by simp
next
  case (remove key r)
  then show ?thesis
    using Remove_length [OF remove(2)] Remove_num_keys [OF remove(2)] assms(2)
    by (simp add: capacity_def)
qed

lemma fresh_run_within_int:
  assumes "fresh_run hf cap lf cs = Inr t" and "cap \<le> INT_MAX"
  shows "capacity t \<le> INT_MAX \<and> num_keys t \<le> INT_MAX"
proof -
  from assms(1) obtain t0 where t0: "HashTable cap lf = Inr t0" and r: "run hf t0 cs = Inr t"
    by (rule fresh_run_cases)
  have "capacity t0 \<le> INT_MAX \<and> num_keys t0 \<le> INT_MAX"
    using t0 assms(2) by (auto simp: HashTable_Inr capacity_def INT_MAX_def)
  with r show ?thesis
    by (rule run_invariant) (rule step_within_int)
qed

subsection \<open>Construction and growth\<close>

text \<open>
  C6. Construction with a capacity \<open>\<le> 0\<close> fails, and so does construction with a load
  factor that is 0, negative or greater than 1; the failure is the \<^verbatim>\<open>std::logic_error\<close>
  the constructor throws. A load factor of exactly 1 is accepted. A table that was
  constructed has exactly \<open>cap\<close> buckets, all of them empty, and a key count of 0.
\<close>

theorem HashTable_construction:
  "(cap \<le> 0 \<longrightarrow> (\<exists>msg. HashTable cap lf = Inl (LogicError msg))) \<and>
   (lf \<le> 0 \<or> 1 < lf \<longrightarrow> (\<exists>msg. HashTable cap lf = Inl (LogicError msg))) \<and>
   (0 < cap \<longrightarrow> (\<exists>t. HashTable cap 1 = Inr t)) \<and>
   (HashTable cap lf = Inr t \<longrightarrow>
      capacity t = cap \<and> buckets t = replicate (nat cap) [] \<and> size_ht t = 0 \<and>
      load_factor_ht t = lf)"
proof (intro conjI impI)
  assume "cap \<le> 0"
  then show "\<exists>msg. HashTable cap lf = Inl (LogicError msg)" by (simp add: HashTable_def)
next
  assume "lf \<le> 0 \<or> 1 < lf"
  then show "\<exists>msg. HashTable cap lf = Inl (LogicError msg)" by (auto simp: HashTable_def)
next
  assume "0 < cap"
  then show "\<exists>t. HashTable cap 1 = Inr t" by (simp add: HashTable_def)
next
  assume ok: "HashTable cap lf = Inr t"
  then have "0 < cap"
    and t: "t = \<lparr>buckets = replicate (nat cap) [], num_keys = 0, load_factor = lf\<rparr>"
    by (simp_all add: HashTable_Inr)
  then show "capacity t = cap" and "buckets t = replicate (nat cap) []"
    and "size_ht t = 0" and "load_factor_ht t = lf"
    by (simp_all add: capacity_def size_ht_def load_factor_ht_def)
qed

theorem HashTable_construction_witness:
  "(\<exists>msg. HashTable 0 (1/2) = Inl (LogicError msg)) \<and>
   (\<exists>msg. HashTable 4 0 = Inl (LogicError msg)) \<and>
   (\<exists>msg. HashTable 4 (-1) = Inl (LogicError msg)) \<and>
   (\<exists>msg. HashTable 4 (3/2) = Inl (LogicError msg)) \<and>
   (\<exists>t. HashTable 4 1 = Inr t) \<and>
   HashTable 3 (1/2) = Inr \<lparr>buckets = [[], [], []], num_keys = 0, load_factor = 1/2\<rparr> \<and>
   capacity \<lparr>buckets = [[], [], []], num_keys = 0, load_factor = 1/2\<rparr> = 3 \<and>
   size_ht \<lparr>buckets = [[], [], []], num_keys = 0, load_factor = 1/2\<rparr> = 0"
proof -
  have ok: "HashTable 3 (1/2) = Inr \<lparr>buckets = [[], [], []], num_keys = 0, load_factor = 1/2\<rparr>"
    by code_simp
  have a: "\<exists>msg. HashTable 0 (1/2) = Inl (LogicError msg)"
    using HashTable_construction [of 0 "1/2"] by simp
  have b: "\<exists>msg. HashTable 4 0 = Inl (LogicError msg)"
    using HashTable_construction [of 4 0] by simp
  have c: "\<exists>msg. HashTable 4 (-1) = Inl (LogicError msg)"
    using HashTable_construction [of 4 "-1"] by simp
  have d: "\<exists>msg. HashTable 4 (3/2) = Inl (LogicError msg)"
    using HashTable_construction [of 4 "3/2"] by simp
  have e: "\<exists>t. HashTable 4 1 = Inr t"
    using HashTable_construction [of 4 1] by simp
  have f: "capacity \<lparr>buckets = [[], [], []], num_keys = 0, load_factor = 1/2\<rparr> = 3 \<and>
      size_ht \<lparr>buckets = [[], [], []], num_keys = 0, load_factor = 1/2\<rparr> = 0"
    using HashTable_construction [of 3 "1/2"
        "\<lparr>buckets = [[], [], []], num_keys = 0, load_factor = 1/2\<rparr>"] ok
    by blast
  show ?thesis using a b c d e f ok by blast
qed



subsection \<open>The counter bounds the stored pairs\<close>

lemma concat_update_length:
  "i < length bs \<Longrightarrow>
     length (concat (bs[i := b])) + length (bs ! i) = length (concat bs) + length b"
  by (induction bs arbitrary: i) (auto split: nat.splits)

lemma rehash_total:
  "rehash hf old new = Inr res \<Longrightarrow>
     length (concat res) \<le> length (concat new) + length (concat old)"
proof (induction old arbitrary: new)
  case Nil
  then show ?case by simp
next
  case (Cons l old)
  show ?case
  proof (cases l)
    case Nil
    then show ?thesis using Cons by simp
  next
    case (Cons front rest)
    let ?i = "nat (hf (fst front) (int (length new)))"
    from Cons.prems Cons have i: "?i < length new"
      and r: "rehash hf old (new[?i := l]) = Inr res"
      by (auto simp: Let_def split: if_splits)
    have "length (concat (new[?i := l])) \<le> length (concat new) + length l"
      using concat_update_length [OF i, of l] by simp
    then show ?thesis using Cons.IH [OF r] by simp
  qed
qed

lemma inserted_total:
  assumes "0 \<le> hash hf t key" and "hash hf t key < capacity t"
  shows "length (concat (inserted hf t key val)) \<le> Suc (total_pairs t)"
proof -
  let ?i = "nat (hash hf t key)"
  have i: "?i < length (buckets t)" using assms by (simp add: capacity_def)
  show ?thesis
    using concat_update_length [OF i, of "put_bucket key val (buckets t ! ?i)"]
    by (simp add: inserted_def total_pairs_def put_bucket_length split: if_splits)
qed

lemma Put_total_pairs:
  assumes "Put hf t key val = Inr t'"
  shows "total_pairs t' \<le> Suc (total_pairs t)"
proof -
  note ins = inserted_total [OF Put_in_range [OF assms], of val]
  from assms show ?thesis
  proof (cases rule: Put_Inr_cases)
    case keep
    then show ?thesis using ins by (simp add: total_pairs_def)
  next
    case (grow new_buckets)
    then show ?thesis using ins rehash_total [OF grow(2)] by (simp add: total_pairs_def)
  qed
qed

lemma Remove_total_pairs:
  assumes "Remove hf t key = Inr (r, t')"
  shows "total_pairs t' \<le> total_pairs t"
proof -
  let ?i = "nat (hash hf t key)"
  have i: "?i < length (buckets t)"
    using assms by (auto simp: Remove_unfold capacity_def split: if_splits)
  from assms show ?thesis
  proof (cases rule: Remove_Inr_cases)
    case miss
    then show ?thesis by simp
  next
    case (hit p)
    have le: "length (removeAll p (buckets t ! ?i)) \<le> length (buckets t ! ?i)"
      by simp
    have "length (concat ((buckets t)[?i := removeAll p (buckets t ! ?i)]))
            \<le> length (concat (buckets t))"
      using le concat_update_length [OF i, of "removeAll p (buckets t ! ?i)"] by linarith
    then show ?thesis using hit by (simp add: total_pairs_def)
  qed
qed

lemma step_pairs_le_counter:
  assumes "step hf t c = Inr t'" and "int (total_pairs t) \<le> num_keys t"
  shows "int (total_pairs t') \<le> num_keys t'"
  using assms(1)
proof (cases rule: step_cases)
  case (put key val)
  then show ?thesis
    using Put_total_pairs [OF put(2)] Put_num_keys [OF put(2)] assms(2) by simp
next
  case (remove key r)
  then show ?thesis
    using Remove_total_pairs [OF remove(2)] Remove_num_keys [OF remove(2)] assms(2) by simp
qed

text \<open>
  C10. After every sequence of \<^verbatim>\<open>Put\<close> and \<^verbatim>\<open>Remove\<close> calls on a freshly constructed table
  the number of pairs stored in all buckets is at most \<^verbatim>\<open>size()\<close>, and so is the number
  of elements of \<^verbatim>\<open>keys()\<close>: the counter never undercounts what is stored.
\<close>

theorem stored_pairs_le_size:
  assumes "fresh_run hf cap lf cs = Inr t"
  shows "int (total_pairs t) \<le> size_ht t \<and> int (card (keys t)) \<le> size_ht t"
proof -
  from assms obtain t0 where t0: "HashTable cap lf = Inr t0" and r: "run hf t0 cs = Inr t"
    by (rule fresh_run_cases)
  have "int (total_pairs t0) \<le> num_keys t0"
    using t0 by (auto simp: HashTable_Inr total_pairs_def)
  with r have le: "int (total_pairs t) \<le> num_keys t"
    by (rule run_invariant) (rule step_pairs_le_counter)
  have "card (keys t) \<le> total_pairs t"
    using card_length [of "map fst (concat (buckets t))"]
    by (simp add: keys_def total_pairs_def)
  with le show ?thesis by (simp add: size_ht_def)
qed

theorem stored_pairs_le_size_witness:
  "fresh_run utils_hash 1 1
     [PutCall 0 ''a'', PutCall 2 ''b'', PutCall 2 ''c'', RemoveCall 0, PutCall 6 ''d''] =
   Inr \<lparr>buckets = [[], [], [(2, ''c''), (6, ''d'')], [], [], [], [], []],
        num_keys = 4, load_factor = 1\<rparr> \<and>
   int (total_pairs \<lparr>buckets = [[], [], [(2, ''c''), (6, ''d'')], [], [], [], [], []],
        num_keys = 4, load_factor = 1\<rparr>) \<le> 4 \<and>
   int (card (keys \<lparr>buckets = [[], [], [(2, ''c''), (6, ''d'')], [], [], [], [], []],
        num_keys = 4, load_factor = 1\<rparr>)) \<le> 4"
proof -
  have run: "fresh_run utils_hash 1 1
     [PutCall 0 ''a'', PutCall 2 ''b'', PutCall 2 ''c'', RemoveCall 0, PutCall 6 ''d''] =
   Inr \<lparr>buckets = [[], [], [(2, ''c''), (6, ''d'')], [], [], [], [], []],
        num_keys = 4, load_factor = 1\<rparr>"
    by code_simp
  show ?thesis using run stored_pairs_le_size [OF run] by (simp add: size_ht_def)
qed

subsection \<open>Keys are distinct within a bucket\<close>

lemma rehash_set: "rehash hf old new = Inr res \<Longrightarrow> set res \<subseteq> set new \<union> set old"
proof (induction old arbitrary: new)
  case Nil
  then show ?case by simp
next
  case (Cons l old)
  show ?case
  proof (cases l)
    case Nil
    then show ?thesis using Cons by auto
  next
    case (Cons front rest)
    let ?i = "nat (hf (fst front) (int (length new)))"
    from Cons.prems Cons have r: "rehash hf old (new[?i := l]) = Inr res"
      by (auto simp: Let_def split: if_splits)
    have "set (new[?i := l]) \<subseteq> insert l (set new)" by (rule set_update_subset_insert)
    then show ?thesis using Cons.IH [OF r] by auto
  qed
qed

lemma inserted_distinct:
  assumes "\<forall>b \<in> set (buckets t). distinct (map fst b)"
    and "0 \<le> hash hf t key" and "hash hf t key < capacity t"
  shows "\<forall>b \<in> set (inserted hf t key val). distinct (map fst b)"
proof
  fix b assume b: "b \<in> set (inserted hf t key val)"
  let ?i = "nat (hash hf t key)"
  have i: "?i < length (buckets t)" using assms(2,3) by (simp add: capacity_def)
  then have old: "distinct (map fst (buckets t ! ?i))" using assms(1) by simp
  from b have "b = put_bucket key val (buckets t ! ?i) \<or> b \<in> set (buckets t)"
    using set_update_subset_insert [of "buckets t" ?i] by (auto simp: inserted_def)
  then show "distinct (map fst b)"
    using assms(1) put_bucket_distinct [OF old] by auto
qed

lemma Put_distinct:
  assumes "Put hf t key val = Inr t'" and "\<forall>b \<in> set (buckets t). distinct (map fst b)"
  shows "\<forall>b \<in> set (buckets t'). distinct (map fst b)"
proof -
  note ins = inserted_distinct [OF assms(2) Put_in_range [OF assms(1)], of val]
  from assms(1) show ?thesis
  proof (cases rule: Put_Inr_cases)
    case keep
    then show ?thesis using ins by simp
  next
    case (grow new_buckets)
    then show ?thesis using ins rehash_set [OF grow(2)] by auto
  qed
qed

lemma Remove_distinct:
  assumes "Remove hf t key = Inr (r, t')" and "\<forall>b \<in> set (buckets t). distinct (map fst b)"
  shows "\<forall>b \<in> set (buckets t'). distinct (map fst b)"
  using assms(1)
proof (cases rule: Remove_Inr_cases)
  case miss
  then show ?thesis using assms(2) by simp
next
  case (hit p)
  let ?i = "nat (hash hf t key)"
  have i: "?i < length (buckets t)"
    using assms(1) by (auto simp: Remove_unfold capacity_def split: if_splits)
  then have "distinct (map fst (buckets t ! ?i))" using assms(2) by simp
  then have "distinct (map fst (removeAll p (buckets t ! ?i)))"
    by (simp add: removeAll_filter_not_eq distinct_map_filter)
  then show ?thesis
    using hit assms(2) set_update_subset_insert [of "buckets t" ?i] by auto
qed

lemma fresh_run_buckets_distinct:
  assumes "fresh_run hf cap lf cs = Inr t"
  shows "\<forall>b \<in> set (buckets t). distinct (map fst b)"
proof -
  from assms obtain t0 where t0: "HashTable cap lf = Inr t0" and r: "run hf t0 cs = Inr t"
    by (rule fresh_run_cases)
  have "\<forall>b \<in> set (buckets t0). distinct (map fst b)"
    using t0 by (auto simp: HashTable_Inr)
  with r show ?thesis
  proof (rule run_invariant)
    fix s c s'
    assume inv: "\<forall>b \<in> set (buckets s). distinct (map fst b)" and "step hf s c = Inr s'"
    from this(2) show "\<forall>b \<in> set (buckets s'). distinct (map fst b)"
    proof (cases rule: step_cases)
      case (put key val)
      then show ?thesis using inv by (blast dest: Put_distinct)
    next
      case (remove key r)
      then show ?thesis using inv by (blast dest: Remove_distinct)
    qed
  qed
qed

subsection \<open>What Remove returns and erases\<close>

lemma find_pair_None: "find_pair key b = None \<longleftrightarrow> key \<notin> fst ` set b"
  by (induction b) auto

lemma find_pair_Some: "find_pair key b = Some p \<Longrightarrow> p \<in> set b \<and> fst p = key"
  by (induction b) (auto split: if_splits)

lemma search_bucket_find_pair: "search_bucket key b = map_option snd (find_pair key b)"
  by (induction b) auto

text \<open>
  C7. For a key whose index is inside the vector and a bucket with distinct keys (the
  state of every table built by the constructor and calls of \<^verbatim>\<open>Put\<close> and \<^verbatim>\<open>Remove\<close>): if
  the bucket at the index holds a pair with the key, \<^verbatim>\<open>Remove\<close> returns the value of that
  pair and erases exactly that pair from the bucket, leaving everything else as it was;
  if it holds none, \<^verbatim>\<open>Remove\<close> returns no value and the table is unchanged.
\<close>

theorem Remove_hit_or_miss:
  assumes "0 \<le> hash hf t key" and "hash hf t key < capacity t"
    and "distinct (map fst (buckets t ! nat (hash hf t key)))"
  shows "(key \<in> fst ` set (buckets t ! nat (hash hf t key)) \<longrightarrow>
           (\<exists>val. (key, val) \<in> set (buckets t ! nat (hash hf t key)) \<and>
              key \<notin> fst ` set (remove1 (key, val) (buckets t ! nat (hash hf t key))) \<and>
              Remove hf t key =
                Inr (Some val,
                     t\<lparr>buckets := (buckets t)[nat (hash hf t key) :=
                          remove1 (key, val) (buckets t ! nat (hash hf t key))]\<rparr>))) \<and>
         (key \<notin> fst ` set (buckets t ! nat (hash hf t key)) \<longrightarrow>
            Remove hf t key = Inr (None, t))"
proof (intro conjI impI)
  let ?b = "buckets t ! nat (hash hf t key)"
  assume "key \<in> fst ` set ?b"
  then obtain p where p: "find_pair key ?b = Some p"
    using find_pair_None [of key ?b] by (cases "find_pair key ?b") auto
  then have mem: "p \<in> set ?b" and k: "fst p = key" by (auto dest: find_pair_Some)
  have d: "distinct ?b" using assms(3) by (simp add: distinct_map)
  then have eq: "removeAll p ?b = remove1 p ?b" by (simp add: distinct_remove1_removeAll)
  have pk: "p = (key, snd p)" using k by (cases p) simp
  have "key \<notin> fst ` set (remove1 p ?b)"
  proof
    assume "key \<in> fst ` set (remove1 p ?b)"
    then obtain q where q: "q \<in> set (remove1 p ?b)" and qk: "fst q = key" by auto
    from q d have "q \<in> set ?b" and "q \<noteq> p" by auto
    with mem k qk assms(3) show False by (meson distinct_map inj_onD)
  qed
  then show "\<exists>val. (key, val) \<in> set ?b \<and> key \<notin> fst ` set (remove1 (key, val) ?b) \<and>
      Remove hf t key = Inr (Some val, t\<lparr>buckets := (buckets t)[nat (hash hf t key) :=
                          remove1 (key, val) ?b]\<rparr>)"
    using assms(1,2) p mem eq pk
    by (intro exI [of _ "snd p"]) (simp add: Remove_unfold)
next
  assume "key \<notin> fst ` set (buckets t ! nat (hash hf t key))"
  then have "find_pair key (buckets t ! nat (hash hf t key)) = None"
    by (simp add: find_pair_None)
  then show "Remove hf t key = Inr (None, t)"
    using assms(1,2) by (simp add: Remove_unfold)
qed


theorem Remove_hit_or_miss_witness:
  "Remove utils_hash
     \<lparr>buckets = [[], [(1, ''a''), (5, ''b'')], [], []], num_keys = 2, load_factor = 0.75\<rparr> 5 =
     Inr (Some ''b'',
          \<lparr>buckets = [[], [(1, ''a'')], [], []], num_keys = 2, load_factor = 0.75\<rparr>) \<and>
   Remove utils_hash
     \<lparr>buckets = [[], [(1, ''a''), (5, ''b'')], [], []], num_keys = 2, load_factor = 0.75\<rparr> 9 =
     Inr (None,
          \<lparr>buckets = [[], [(1, ''a''), (5, ''b'')], [], []], num_keys = 2, load_factor = 0.75\<rparr>)"
proof -
  let ?T = "\<lparr>buckets = [[], [(1, ''a''), (5, ''b'')], [], []], num_keys = 2,
             load_factor = 0.75\<rparr>"
  have h5: "hash utils_hash ?T 5 = 1" and h9: "hash utils_hash ?T 9 = 1"
    by (simp_all add: hash_def utils_hash_def)
  have cap: "capacity ?T = 4" by (simp add: capacity_def)
  have hit: "Remove utils_hash ?T 5 =
      Inr (Some ''b'', \<lparr>buckets = [[], [(1, ''a'')], [], []], num_keys = 2, load_factor = 0.75\<rparr>)"
    using Remove_hit_or_miss [of utils_hash ?T 5] h5 cap by auto
  have miss: "Remove utils_hash ?T 9 = Inr (None, ?T)"
    using Remove_hit_or_miss [of utils_hash ?T 9] h9 cap by auto
  show ?thesis using hit miss by simp
qed

subsection \<open>Indices stay inside the vector\<close>

lemma valid_hash_utils_hash: "valid_hash utils_hash"
  by (simp add: valid_hash_def utils_hash_def)

lemma hash_in_range:
  assumes "valid_hash hf" and "buckets t \<noteq> []"
  shows "0 \<le> hash hf t key \<and> hash hf t key < capacity t"
  using assms by (simp add: valid_hash_def hash_def capacity_def)

lemma rehash_returns:
  assumes "valid_hash hf" and "new \<noteq> []"
  shows "\<exists>res. rehash hf old new = Inr res"
  using assms(2)
proof (induction old arbitrary: new)
  case Nil
  then show ?case by simp
next
  case (Cons l old)
  show ?case
  proof (cases l)
    case Nil
    then show ?thesis using Cons by simp
  next
    case (Cons front rest)
    let ?i = "hf (fst front) (int (length new))"
    have "0 \<le> ?i \<and> ?i < int (length new)"
      using assms(1) Cons.prems by (simp add: valid_hash_def)
    moreover have "new[nat ?i := l] \<noteq> []" using Cons.prems by simp
    ultimately show ?thesis using Cons Cons.IH [of "new[nat ?i := l]"] by (simp add: Let_def)
  qed
qed

lemma Put_never_out_of_bounds:
  assumes "valid_hash hf" and "buckets t \<noteq> []"
  shows "Put hf t key val \<noteq> Inl IndexOutOfBounds"
proof -
  have "0 < capacity t" using assms(2) by (simp add: capacity_def)
  then have "replicate (nat (capacity t * kGrowthCoefficient)) ([]::bucket) \<noteq> []"
    by (simp add: kGrowthCoefficient_def)
  from rehash_returns [OF assms(1) this]
  obtain res where "rehash hf (inserted hf t key val)
      (replicate (nat (capacity t * kGrowthCoefficient)) []) = Inr res" by blast
  then show ?thesis
    using hash_in_range [OF assms, of key] by (simp add: Put_unfold)
qed

lemma Put_returns:
  assumes "valid_hash hf" and "buckets t \<noteq> []"
    and "num_keys t < INT_MAX" and "capacity t * kGrowthCoefficient \<le> INT_MAX"
  shows "\<exists>t'. Put hf t key val = Inr t'"
proof -
  have "0 < capacity t" using assms(2) by (simp add: capacity_def)
  then have "replicate (nat (capacity t * kGrowthCoefficient)) ([]::bucket) \<noteq> []"
    by (simp add: kGrowthCoefficient_def)
  from rehash_returns [OF assms(1) this]
  obtain res where "rehash hf (inserted hf t key val)
      (replicate (nat (capacity t * kGrowthCoefficient)) []) = Inr res" by blast
  then show ?thesis
    using hash_in_range [OF assms(1,2), of key] assms(3,4) by (simp add: Put_unfold)
qed

lemma run_never_out_of_bounds:
  assumes "valid_hash hf" and "buckets t \<noteq> []"
  shows "run hf t cs \<noteq> Inl IndexOutOfBounds"
  using assms(2)
proof (induction cs arbitrary: t)
  case Nil
  then show ?case by simp
next
  case (Cons c cs)
  show ?case
  proof (cases "step hf t c")
    case (Inl e)
    have "e \<noteq> IndexOutOfBounds"
    proof (cases c)
      case (PutCall key val)
      then show ?thesis
        using Inl Put_never_out_of_bounds [OF assms(1) Cons.prems, of key val] by auto
    next
      case (RemoveCall key)
      then show ?thesis
        using Inl hash_in_range [OF assms(1) Cons.prems, of key]
        by (auto simp: Remove_unfold split: option.splits)
    qed
    then show ?thesis using Inl by simp
  next
    case (Inr t')
    then have "buckets t' \<noteq> []" using Cons.prems by (rule step_length_pos)
    then show ?thesis using Inr Cons.IH by simp
  qed
qed

text \<open>
  C8. With the hash function the specification describes, in every state that the
  constructor and a sequence of \<^verbatim>\<open>Put\<close> and \<^verbatim>\<open>Remove\<close> calls lead to, the index computed
  for any key is at least 0 and less than the capacity; \<^verbatim>\<open>Search\<close> and \<^verbatim>\<open>Remove\<close> return
  and \<^verbatim>\<open>Put\<close> does not index outside a vector, neither the old one nor the one the resize
  fills.
\<close>

theorem hash_index_in_bounds:
  assumes "fresh_run utils_hash cap lf cs = Inr t"
  shows "0 \<le> hash utils_hash t key \<and> hash utils_hash t key < capacity t \<and>
         (\<exists>r. Search utils_hash t key = Inr r) \<and>
         Put utils_hash t key val \<noteq> Inl IndexOutOfBounds \<and>
         (\<exists>r. Remove utils_hash t key = Inr r)"
proof -
  have ne: "buckets t \<noteq> []" using assms by (rule fresh_run_buckets_not_Nil)
  note rng = hash_in_range [OF valid_hash_utils_hash ne, of key]
  have "\<exists>r. Search utils_hash t key = Inr r" using rng by (simp add: Search_def Let_def)
  moreover have "\<exists>r. Remove utils_hash t key = Inr r"
    using rng by (simp add: Remove_unfold split: option.splits)
  ultimately show ?thesis
    using rng Put_never_out_of_bounds [OF valid_hash_utils_hash ne] by simp
qed

theorem hash_index_in_bounds_witness:
  "fresh_run utils_hash 4 0.75 [PutCall (-7) ''a'', PutCall 2 ''b'', RemoveCall 2] =
     Inr \<lparr>buckets = [[], [(-7, ''a'')], [], []], num_keys = 2, load_factor = 0.75\<rparr> \<and>
   hash utils_hash \<lparr>buckets = [[], [(-7, ''a'')], [], []], num_keys = 2, load_factor = 0.75\<rparr>
     (-7) = 1 \<and>
   0 \<le> hash utils_hash
     \<lparr>buckets = [[], [(-7, ''a'')], [], []], num_keys = 2, load_factor = 0.75\<rparr> (-7) \<and>
   hash utils_hash \<lparr>buckets = [[], [(-7, ''a'')], [], []], num_keys = 2, load_factor = 0.75\<rparr>
     (-7) <
     capacity \<lparr>buckets = [[], [(-7, ''a'')], [], []], num_keys = 2, load_factor = 0.75\<rparr>"
proof -
  have run: "fresh_run utils_hash 4 0.75 [PutCall (-7) ''a'', PutCall 2 ''b'', RemoveCall 2] =
     Inr \<lparr>buckets = [[], [(-7, ''a'')], [], []], num_keys = 2, load_factor = 0.75\<rparr>"
    by code_simp
  have h: "hash utils_hash
      \<lparr>buckets = [[], [(-7, ''a'')], [], []], num_keys = 2, load_factor = 0.75\<rparr> (-7) = 1"
    by (simp add: hash_def utils_hash_def)
  show ?thesis
    using run hash_index_in_bounds [OF run, of "-7" "''x''"] by (simp only: h simp_thms) 
qed

subsection \<open>Whole-bucket relocation\<close>

text \<open>
  The loop of the resize, started on any vector \<open>new\<close>: slot \<open>j\<close> ends with the last old
  bucket whose target is \<open>j\<close>, or with what it held when there is none.
\<close>

lemma rehash_slot:
  assumes "rehash hf old new = Inr res" and "j < length new"
  shows "res ! j =
           (case filter (\<lambda>l. target hf (int (length new)) l = Some (int j)) old of
              [] \<Rightarrow> new ! j
            | l # ls \<Rightarrow> last (l # ls))"
  using assms
proof (induction old arbitrary: new)
  case Nil
  then show ?case by simp
next
  case (Cons l old)
  show ?case
  proof (cases l)
    case Nil
    then show ?thesis using Cons.IH [of new] Cons.prems by simp
  next
    case (Cons front rest)
    let ?m = "int (length new)"
    let ?i = "hf (fst front) ?m"
    let ?P = "\<lambda>l. target hf ?m l = Some (int j)"
    from Cons.prems(1) Cons have rng: "0 \<le> ?i" "?i < ?m"
      and r: "rehash hf old (new[nat ?i := l]) = Inr res"
      by (auto simp: Let_def split: if_splits)
    have IH: "res ! j = (case filter ?P old of [] \<Rightarrow> (new[nat ?i := l]) ! j
                          | l' # ls \<Rightarrow> last (l' # ls))"
      using Cons.IH [OF r] Cons.prems(2) by simp
    show ?thesis
    proof (cases "?i = int j")
      case True
      then have "filter ?P (l # old) = l # filter ?P old" using Cons by simp
      moreover have "(new[nat ?i := l]) ! j = l" using True Cons.prems(2) by simp
      ultimately show ?thesis using IH by (simp split: list.splits)
    next
      case False
      then have "filter ?P (l # old) = filter ?P old" using Cons by simp
      moreover have "(new[nat ?i := l]) ! j = new ! j" using False rng by simp
      ultimately show ?thesis using IH by (simp split: list.splits)
    qed
  qed
qed

lemma rehash_append:
  "rehash hf (xs @ ys) new =
     (case rehash hf xs new of Inl e \<Rightarrow> Inl e | Inr mid \<Rightarrow> rehash hf ys mid)"
  by (induction xs arbitrary: new) (auto simp: Let_def split: list.splits)

lemma rehash_assigns:
  assumes "rehash hf old new = Inr res" and "i < length old" and "old ! i \<noteq> []"
  shows "assigned_whole hf old new i"
proof -
  from assms(3) obtain front rest where l: "old ! i = front # rest" by (cases "old ! i") auto
  let ?k = "hf (fst front) (int (length new))"
  have split: "old = take i old @ (old ! i # drop (Suc i) old)"
    using assms(2) by (rule id_take_nth_drop)
  have "rehash hf (take i old @ (old ! i # drop (Suc i) old)) new = Inr res"
    using assms(1) split by simp
  then obtain m0 where m0: "rehash hf (take i old) new = Inr m0"
    and rest: "rehash hf (old ! i # drop (Suc i) old) m0 = Inr res"
    by (auto simp: rehash_append split: sum.splits)
  have len: "length m0 = length new" using m0 by (rule rehash_length)
  from rest l len have rng: "0 \<le> ?k" "?k < int (length new)"
    by (auto simp: Let_def split: if_splits)
  have "take (Suc i) old = take i old @ [old ! i]"
    using assms(2) by (rule take_Suc_conv_app_nth)
  then have "rehash hf (take (Suc i) old) new = Inr (m0[nat ?k := old ! i])"
    using m0 l len rng by (simp add: rehash_append Let_def)
  then show ?thesis
    using l len rng by (simp add: assigned_whole_def)
qed

text \<open>
  C4. When \<^verbatim>\<open>Put\<close> resizes, the loop assigns every non-empty old bucket, whole and with
  its pairs in their order, to the slot of the new vector that the key of its first pair
  hashes to at the new capacity; the keys of its other pairs play no part. So every slot
  of the new vector ends with nothing or with one whole old bucket: the last of the old
  buckets whose first key hashes to that slot.
\<close>

theorem resize_moves_whole_buckets:
  assumes "Put hf t key val = Inr t'" and "grows t" and "j < length (buckets t')"
  shows "capacity t' = capacity t * kGrowthCoefficient \<and>
         (\<forall>i < length (inserted hf t key val).
            inserted hf t key val ! i \<noteq> [] \<longrightarrow>
            assigned_whole hf (inserted hf t key val)
              (replicate (nat (capacity t')) []) i) \<and>
         buckets t' ! j = relocated hf (capacity t') (inserted hf t key val) j"
proof -
  from assms(1,2) obtain new_buckets
    where r: "rehash hf (inserted hf t key val)
                (replicate (nat (capacity t * kGrowthCoefficient)) []) = Inr new_buckets"
      and t': "t' = t\<lparr>buckets := new_buckets, num_keys := num_keys t + 1\<rparr>"
    by (cases rule: Put_Inr_cases) auto
  have len: "length new_buckets = nat (capacity t * kGrowthCoefficient)"
    using rehash_length [OF r] by simp
  have "0 \<le> capacity t" by (simp add: capacity_def)
  then have cap: "capacity t' = capacity t * kGrowthCoefficient"
    using t' len by (simp add: capacity_def kGrowthCoefficient_def)
  have j: "j < length (replicate (nat (capacity t * kGrowthCoefficient)) ([]::bucket))"
    using assms(3) t' len by simp
  have slot: "buckets t' ! j = relocated hf (capacity t') (inserted hf t key val) j"
    using rehash_slot [OF r j] j cap t'
    by (simp add: relocated_def capacity_def split: list.splits)
  have "\<forall>i < length (inserted hf t key val).
          inserted hf t key val ! i \<noteq> [] \<longrightarrow>
          assigned_whole hf (inserted hf t key val) (replicate (nat (capacity t')) []) i"
    using rehash_assigns [OF r] cap by simp
  with cap slot show ?thesis by simp
qed

theorem resize_moves_whole_buckets_witness:
  "Put utils_hash \<lparr>buckets = [[(0, ''a'')], []], num_keys = 1, load_factor = 1\<rparr> 2 ''b'' =
     Inr \<lparr>buckets = [[(0, ''a''), (2, ''b'')], [], [], []], num_keys = 2, load_factor = 1\<rparr> \<and>
   grows \<lparr>buckets = [[(0, ''a'')], []], num_keys = 1, load_factor = 1\<rparr> \<and>
   inserted utils_hash \<lparr>buckets = [[(0, ''a'')], []], num_keys = 1, load_factor = 1\<rparr> 2 ''b'' =
     [[(0, ''a''), (2, ''b'')], []] \<and>
   assigned_whole utils_hash
     (inserted utils_hash \<lparr>buckets = [[(0, ''a'')], []], num_keys = 1, load_factor = 1\<rparr>
        2 ''b'')
     (replicate (nat (capacity
        \<lparr>buckets = [[(0, ''a''), (2, ''b'')], [], [], []], num_keys = 2, load_factor = 1\<rparr>)) [])
     0 \<and>
   buckets \<lparr>buckets = [[(0, ''a''), (2, ''b'')], [], [], []], num_keys = 2, load_factor = 1\<rparr> ! 0 =
     relocated utils_hash
       (capacity \<lparr>buckets = [[(0, ''a''), (2, ''b'')], [], [], []], num_keys = 2,
                  load_factor = 1\<rparr>)
       (inserted utils_hash \<lparr>buckets = [[(0, ''a'')], []], num_keys = 1, load_factor = 1\<rparr>
          2 ''b'') 0 \<and>
   utils_hash 0 4 = 0 \<and> utils_hash 2 4 = 2"
proof -
  let ?T = "\<lparr>buckets = [[(0, ''a'')], []], num_keys = 1, load_factor = 1\<rparr>"
  let ?T' = "\<lparr>buckets = [[(0, ''a''), (2, ''b'')], [], [], []], num_keys = 2, load_factor = 1\<rparr>"
  have put: "Put utils_hash ?T 2 ''b'' = Inr ?T'" by code_simp
  have g: "grows ?T" by code_simp
  have j: "0 < length (buckets ?T')" by simp
  have ins: "inserted utils_hash ?T 2 ''b'' = [[(0, ''a''), (2, ''b'')], []]" by code_simp
  have h: "utils_hash 0 4 = 0 \<and> utils_hash 2 4 = 2" by (simp add: utils_hash_def)
  note moved = resize_moves_whole_buckets [OF put g j]
  have slot: "buckets ?T' ! 0 =
      relocated utils_hash (capacity ?T') (inserted utils_hash ?T 2 ''b'') 0"
    using moved by blast
  have "0 < length (inserted utils_hash ?T 2 ''b'') \<and> inserted utils_hash ?T 2 ''b'' ! 0 \<noteq> []"
    by (simp add: ins)
  then have asg: "assigned_whole utils_hash (inserted utils_hash ?T 2 ''b'')
      (replicate (nat (capacity ?T')) []) 0"
    using moved by blast
  show ?thesis using put g ins asg slot h by blast
qed

subsection \<open>Put alone keeps every bucket at the slot of its first key\<close>

lemma target_keys:
  "target hf m l = (case map fst l of [] \<Rightarrow> None | k # ks \<Rightarrow> Some (hf k m))"
  by (cases l) simp_all

lemma put_bucket_target:
  "target hf m (put_bucket key val b) =
     (case b of [] \<Rightarrow> Some (hf key m) | front # rest \<Rightarrow> Some (hf (fst front) m))"
  by (cases b) (simp_all add: target_keys put_bucket_keys)

lemma front_home_replicate: "front_home hf m (replicate n [])"
  by (simp add: front_home_def)

lemma inserted_front_home:
  assumes "front_home hf (capacity t) (buckets t)"
    and "0 \<le> hash hf t key" and "hash hf t key < capacity t"
  shows "front_home hf (capacity t) (inserted hf t key val)"
  unfolding front_home_def
proof (intro allI impI)
  fix i assume i: "i < length (inserted hf t key val)"
    and ne: "inserted hf t key val ! i \<noteq> []"
  let ?k = "nat (hash hf t key)"
  have k: "?k < length (buckets t)" using assms(2,3) by (simp add: capacity_def)
  have il: "i < length (buckets t)" using i by (simp add: inserted_length)
  have old: "buckets t ! i \<noteq> [] \<Longrightarrow> target hf (capacity t) (buckets t ! i) = Some (int i)"
    using assms(1) il by (simp add: front_home_def)
  show "target hf (capacity t) (inserted hf t key val ! i) = Some (int i)"
  proof (cases "i = ?k")
    case True
    have new: "inserted hf t key val ! i = put_bucket key val (buckets t ! i)"
      using True k by (simp add: inserted_def)
    have own: "hf key (capacity t) = int i"
      using True assms(2) by (simp add: hash_def capacity_def)
    show ?thesis
    proof (cases "buckets t ! i")
      case Nil
      then show ?thesis using new own by (simp add: put_bucket_target)
    next
      case (Cons front rest)
      then have "target hf (capacity t) (front # rest) = Some (int i)" using old by simp
      then show ?thesis using new Cons by (simp add: put_bucket_target)
    qed
  next
    case False
    then have same: "inserted hf t key val ! i = buckets t ! i"
      by (simp add: inserted_def)
    then show ?thesis using ne old by simp
  qed
qed

lemma rehash_front_home:
  assumes "rehash hf old new = Inr res" and "front_home hf (int (length new)) new"
  shows "front_home hf (int (length new)) res"
  unfolding front_home_def
proof (intro allI impI)
  fix j assume j: "j < length res" and ne: "res ! j \<noteq> []"
  let ?P = "\<lambda>l. target hf (int (length new)) l = Some (int j)"
  have jn: "j < length new" using j rehash_length [OF assms(1)] by simp
  note slot = rehash_slot [OF assms(1) jn]
  show "target hf (int (length new)) (res ! j) = Some (int j)"
  proof (cases "filter ?P old")
    case Nil
    then have "res ! j = new ! j" using slot by simp
    then show ?thesis using assms(2) jn ne by (simp add: front_home_def)
  next
    case (Cons l ls)
    then have "res ! j = last (filter ?P old)" using slot by simp
    moreover have "last (filter ?P old) \<in> set (filter ?P old)" using Cons by simp
    ultimately show ?thesis by simp
  qed
qed

lemma Put_front_home:
  assumes "Put hf t key val = Inr t'" and "front_home hf (capacity t) (buckets t)"
  shows "front_home hf (capacity t') (buckets t')"
proof -
  note ins = inserted_front_home [OF assms(2) Put_in_range [OF assms(1)], of val]
  from assms(1) show ?thesis
  proof (cases rule: Put_Inr_cases)
    case keep
    then show ?thesis using ins by (simp add: capacity_def inserted_length)
  next
    case (grow new_buckets)
    let ?new = "replicate (nat (capacity t * kGrowthCoefficient)) ([]::bucket)"
    have "front_home hf (int (length ?new)) ?new" by (rule front_home_replicate)
    from rehash_front_home [OF grow(2) this]
    have "front_home hf (int (length ?new)) new_buckets" .
    moreover have "length new_buckets = length ?new" using grow(2) by (rule rehash_length)
    ultimately show ?thesis using grow(3) by (simp add: capacity_def)
  qed
qed

lemma puts_only_front_home:
  assumes "fresh_run hf cap lf cs = Inr t" and "list_all is_put cs"
  shows "front_home hf (capacity t) (buckets t)"
proof -
  from assms(1) obtain t0 where t0: "HashTable cap lf = Inr t0" and r: "run hf t0 cs = Inr t"
    by (rule fresh_run_cases)
  have "front_home hf (capacity t0) (buckets t0)"
    using t0 by (auto simp: HashTable_Inr front_home_replicate)
  with r show ?thesis
  proof (rule run_invariant)
    fix s c s'
    assume inv: "front_home hf (capacity s) (buckets s)" and c: "c \<in> set cs"
      and st: "step hf s c = Inr s'"
    from c assms(2) have "is_put c" by (simp add: list_all_iff)
    with st obtain key val where "Put hf s key val = Inr s'"
      by (cases rule: step_cases) auto
    then show "front_home hf (capacity s') (buckets s')" using inv by (rule Put_front_home)
  qed
qed

subsection \<open>A hash reduced modulo the size never merges two home buckets\<close>

lemma targets_append: "targets hf m (xs @ ys) = targets hf m xs @ targets hf m ys"
  by (simp add: targets_def)

lemma targets_take_distinct:
  assumes red: "\<forall>key sz. 0 < sz \<longrightarrow> hf key sz = g key mod sz"
    and home: "front_home hf (int (length bs)) bs"
    and k: "k \<le> length bs"
  shows "distinct (targets hf (int (length bs) * 2) (take k bs)) \<and>
         (\<forall>x \<in> set (targets hf (int (length bs) * 2) (take k bs)).
            x mod int (length bs) < int k)"
  using k
proof (induction k)
  case 0
  then show ?case by (simp add: targets_def)
next
  case (Suc k)
  let ?n = "int (length bs)"
  have kl: "k < length bs" using Suc.prems by simp
  have IH: "distinct (targets hf (?n * 2) (take k bs))"
    "\<forall>x \<in> set (targets hf (?n * 2) (take k bs)). x mod ?n < int k"
    using Suc.IH kl by simp_all
  have tk: "take (Suc k) bs = take k bs @ [bs ! k]" using kl by (rule take_Suc_conv_app_nth)
  show ?case
  proof (cases "bs ! k")
    case Nil
    then have "targets hf (?n * 2) (take (Suc k) bs) = targets hf (?n * 2) (take k bs)"
      by (simp add: tk targets_append) (simp add: targets_def)
    then show ?thesis using IH by auto
  next
    case (Cons front rest)
    let ?x = "hf (fst front) (?n * 2)"
    have new: "targets hf (?n * 2) (take (Suc k) bs) = targets hf (?n * 2) (take k bs) @ [?x]"
      using Cons by (simp add: tk targets_append) (simp add: targets_def)
    have "bs ! k \<noteq> []" using Cons by simp
    with home kl have "target hf ?n (bs ! k) = Some (int k)"
      unfolding front_home_def by blast
    then have "hf (fst front) ?n = int k" using Cons by simp
    moreover have "?x mod ?n = hf (fst front) ?n"
    proof -
      have pos: "0 < ?n" "0 < ?n * 2" using kl by auto
      have "?x = g (fst front) mod (?n * 2)" and "hf (fst front) ?n = g (fst front) mod ?n"
        using red pos by blast+
      then show ?thesis by (simp add: mod_mod_cancel)
    qed
    ultimately have xk: "?x mod ?n = int k" by simp
    then have "?x \<notin> set (targets hf (?n * 2) (take k bs))" using IH(2) by auto
    then show ?thesis using IH new xk by auto
  qed
qed

lemma reduced_modulo_valid: "\<forall>key sz. 0 < sz \<longrightarrow> hf key sz = g key mod sz \<Longrightarrow> valid_hash hf"
  by (simp add: valid_hash_def)

lemma puts_only_no_collision:
  assumes "\<forall>key sz. 0 < sz \<longrightarrow> hf key sz = g key mod sz"
    and "fresh_run hf cap lf cs = Inr t" and "list_all is_put cs"
  shows "\<not> resize_collision hf t key val"
proof -
  have ne: "buckets t \<noteq> []" using assms(2) by (rule fresh_run_buckets_not_Nil)
  have v: "valid_hash hf" using assms(1) by (rule reduced_modulo_valid)
  have "front_home hf (capacity t) (buckets t)" using assms(2,3) by (rule puts_only_front_home)
  then have "front_home hf (capacity t) (inserted hf t key val)"
    using hash_in_range [OF v ne, of key] by (simp add: inserted_front_home)
  then have "front_home hf (int (length (inserted hf t key val))) (inserted hf t key val)"
    by (simp add: capacity_def inserted_length)
  from targets_take_distinct [OF assms(1) this order_refl]
  have "distinct (targets hf (capacity t * kGrowthCoefficient) (inserted hf t key val))"
    by (simp add: capacity_def inserted_length kGrowthCoefficient_def)
  then show ?thesis by (simp add: resize_collision_def)
qed


text \<open>
  C9, as amended. With \<^verbatim>\<open>Put\<close> calls alone, and a hash that is an integer hash of the key
  reduced modulo the size, no resize maps two non-empty old buckets to the same new index,
  so no bucket is overwritten. The overwrite needs a \<^verbatim>\<open>Remove\<close> that erased the first pair
  of a bucket: after \<^verbatim>\<open>Put(0), Put(2), Remove(0), Put(4)\<close> on a table of capacity 1 and
  load factor 1, \<^verbatim>\<open>Put(10)\<close> resizes, the buckets that start with 2 and with 10 both go
  to slot 2, the second assignment replaces the first, and the keys 2 and 4 are absent from
  \<^verbatim>\<open>keys()\<close>, \<^verbatim>\<open>values()\<close> and \<^verbatim>\<open>Search\<close> afterwards.
\<close>

theorem overwrite_needs_Remove:
  "(list_all is_put cs \<and> (\<forall>key sz. 0 < sz \<longrightarrow> hf key sz = g key mod sz) \<and>
    fresh_run hf cap lf cs = Inr t \<longrightarrow> \<not> resize_collision hf t key val) \<and>
   fresh_run utils_hash 1 1 [PutCall 0 ''a'', PutCall 2 ''b'', RemoveCall 0, PutCall 4 ''c''] =
     Inr \<lparr>buckets = [[(2, ''b''), (4, ''c'')], [], [], []], num_keys = 3, load_factor = 1\<rparr> \<and>
   resize_collision utils_hash
     \<lparr>buckets = [[(2, ''b''), (4, ''c'')], [], [], []], num_keys = 3, load_factor = 1\<rparr>
     10 ''d'' \<and>
   targets utils_hash 8
     (inserted utils_hash
        \<lparr>buckets = [[(2, ''b''), (4, ''c'')], [], [], []], num_keys = 3, load_factor = 1\<rparr>
        10 ''d'') = [2, 2] \<and>
   Put utils_hash
     \<lparr>buckets = [[(2, ''b''), (4, ''c'')], [], [], []], num_keys = 3, load_factor = 1\<rparr>
     10 ''d'' =
     Inr \<lparr>buckets = [[], [], [(10, ''d'')], [], [], [], [], []], num_keys = 4,
          load_factor = 1\<rparr> \<and>
   keys \<lparr>buckets = [[(2, ''b''), (4, ''c'')], [], [], []], num_keys = 3, load_factor = 1\<rparr> =
     {2, 4} \<and>
   keys \<lparr>buckets = [[], [], [(10, ''d'')], [], [], [], [], []], num_keys = 4,
         load_factor = 1\<rparr> = {10} \<and>
   values_ht \<lparr>buckets = [[], [], [(10, ''d'')], [], [], [], [], []], num_keys = 4,
         load_factor = 1\<rparr> = [''d''] \<and>
   Search utils_hash \<lparr>buckets = [[], [], [(10, ''d'')], [], [], [], [], []], num_keys = 4,
         load_factor = 1\<rparr> 2 = Inr None \<and>
   Search utils_hash \<lparr>buckets = [[], [], [(10, ''d'')], [], [], [], [], []], num_keys = 4,
         load_factor = 1\<rparr> 4 = Inr None"
proof -
  let ?T = "\<lparr>buckets = [[(2, ''b''), (4, ''c'')], [], [], []], num_keys = 3, load_factor = 1\<rparr>"
  let ?T' = "\<lparr>buckets = [[], [], [(10, ''d'')], [], [], [], [], []], num_keys = 4,
              load_factor = 1\<rparr>"
  have general: "list_all is_put cs \<and> (\<forall>key sz. 0 < sz \<longrightarrow> hf key sz = g key mod sz) \<and>
      fresh_run hf cap lf cs = Inr t \<longrightarrow> \<not> resize_collision hf t key val"
    using puts_only_no_collision [of hf g cap lf cs t key val] by blast
  have run: "fresh_run utils_hash 1 1
      [PutCall 0 ''a'', PutCall 2 ''b'', RemoveCall 0, PutCall 4 ''c''] = Inr ?T"
    by code_simp
  have coll: "resize_collision utils_hash ?T 10 ''d''" by code_simp
  have tg: "targets utils_hash 8 (inserted utils_hash ?T 10 ''d'') = [2, 2]" by code_simp
  have put: "Put utils_hash ?T 10 ''d'' = Inr ?T'" by code_simp
  have k: "keys ?T = {2, 4}" and k': "keys ?T' = {10}" by (simp_all add: keys_def)
  have v: "values_ht ?T' = [''d'']" by (simp add: values_ht_def)
  have s2: "Search utils_hash ?T' 2 = Inr None" and s4: "Search utils_hash ?T' 4 = Inr None"
    by code_simp+
  show ?thesis using general run coll tg put k k' v s2 s4 by blast
qed

text \<open>
  An instance of the first part where the next \<^verbatim>\<open>Put\<close> does resize: the buckets of the
  keys 1, 2 and 3 go to three different slots of the eight.
\<close>

theorem overwrite_needs_Remove_witness:
  "list_all is_put [PutCall 1 ''a'', PutCall 2 ''b''] \<and>
   utils_hash = (\<lambda>key sz. key mod sz) \<and>
   fresh_run utils_hash 4 0.75 [PutCall 1 ''a'', PutCall 2 ''b''] =
     Inr \<lparr>buckets = [[], [(1, ''a'')], [(2, ''b'')], []], num_keys = 2, load_factor = 0.75\<rparr> \<and>
   grows \<lparr>buckets = [[], [(1, ''a'')], [(2, ''b'')], []], num_keys = 2, load_factor = 0.75\<rparr> \<and>
   \<not> resize_collision utils_hash
     \<lparr>buckets = [[], [(1, ''a'')], [(2, ''b'')], []], num_keys = 2, load_factor = 0.75\<rparr>
     3 ''c''"
proof -
  let ?T = "\<lparr>buckets = [[], [(1, ''a'')], [(2, ''b'')], []], num_keys = 2, load_factor = 0.75\<rparr>"
  have p: "list_all is_put [PutCall 1 ''a'', PutCall 2 ''b'']" by simp
  have m: "\<forall>key sz. 0 < sz \<longrightarrow> utils_hash key sz = key mod sz" by (simp add: utils_hash_def)
  have run: "fresh_run utils_hash 4 0.75 [PutCall 1 ''a'', PutCall 2 ''b''] = Inr ?T"
    by code_simp
  have g: "grows ?T" by code_simp
  have "\<not> resize_collision utils_hash ?T 3 ''c''"
    using overwrite_needs_Remove
      [of "[PutCall 1 ''a'', PutCall 2 ''b'']" utils_hash "\<lambda>key. key" 4 "0.75" ?T 3 "''c''"]
      p m run by blast
  moreover have "utils_hash = (\<lambda>key sz. key mod sz)"
    by (intro ext) (simp add: utils_hash_def)
  ultimately show ?thesis using p run g by blast
qed

text \<open>
  C9 as it is stated fails for the hash of the specification: no sequence of \<^verbatim>\<open>Put\<close>
  calls, with distinct keys or not, on any freshly constructed table reaches a \<^verbatim>\<open>Put\<close>
  whose resize gives two non-empty old buckets the same target.
\<close>

theorem Put_only_collision_counterexample:
  "\<not> (\<exists>cap lf cs key val t.
        list_all is_put cs \<and> distinct (map call_key (cs @ [PutCall key val])) \<and>
        fresh_run utils_hash cap lf cs = Inr t \<and> resize_collision utils_hash t key val)"
proof -
  have "\<forall>key sz. 0 < sz \<longrightarrow> utils_hash key sz = key mod sz" by (simp add: utils_hash_def)
  then show ?thesis using puts_only_no_collision [of utils_hash "\<lambda>key. key"] by blast
qed

subsection \<open>Keys that the resize loses or duplicates\<close>

lemma search_bucket_put_bucket: "search_bucket key (put_bucket key val b) = Some val"
  by (induction b) (auto simp: put_bucket_def split: prod.splits if_splits)

text \<open>A \<^verbatim>\<open>Put\<close> that does not resize is found by the \<^verbatim>\<open>Search\<close> that follows it.\<close>

lemma Search_after_Put_without_resize:
  assumes "Put hf t key val = Inr t'" and "\<not> grows t"
  shows "Search hf t' key = Inr (Some val)"
proof -
  from assms have t': "t' = t\<lparr>buckets := inserted hf t key val, num_keys := num_keys t + 1\<rparr>"
    by (cases rule: Put_Inr_cases) auto
  note rng = Put_in_range [OF assms(1)]
  then have "nat (hash hf t key) < length (buckets t)" by (simp add: capacity_def)
  then show ?thesis
    using rng t'
    by (simp add: Search_def hash_def capacity_def inserted_def search_bucket_put_bucket)
qed

text \<open>
  C1, at a failing input. On a table of capacity 1 and load factor 1, \<^verbatim>\<open>Put(0, "a")\<close>
  and \<^verbatim>\<open>Put(2, "b")\<close> have distinct keys; the second call resizes to capacity 4 and moves
  the bucket that holds both pairs to slot 0, the slot of key 0, while key 2 hashes to
  slot 2: \<^verbatim>\<open>Search(2)\<close> finds nothing.
\<close>

theorem Search_misses_key_after_resize:
  "distinct (map call_key [PutCall 0 ''a'', PutCall 2 ''b'']) \<and>
   fresh_run utils_hash 1 1 [PutCall 0 ''a'', PutCall 2 ''b''] =
     Inr \<lparr>buckets = [[(0, ''a''), (2, ''b'')], [], [], []], num_keys = 2, load_factor = 1\<rparr> \<and>
   Search utils_hash
     \<lparr>buckets = [[(0, ''a''), (2, ''b'')], [], [], []], num_keys = 2, load_factor = 1\<rparr> 2 =
     Inr None"
proof (intro conjI)
  show "distinct (map call_key [PutCall 0 ''a'', PutCall 2 ''b''])" by simp
  show "fresh_run utils_hash 1 1 [PutCall 0 ''a'', PutCall 2 ''b''] =
     Inr \<lparr>buckets = [[(0, ''a''), (2, ''b'')], [], [], []], num_keys = 2, load_factor = 1\<rparr>"
    by code_simp
  show "Search utils_hash
     \<lparr>buckets = [[(0, ''a''), (2, ''b'')], [], [], []], num_keys = 2, load_factor = 1\<rparr> 2 =
     Inr None"
    by code_simp
qed

text \<open>
  C2, at a failing input. After the two calls above key 2 sits in slot 0, where
  \<^verbatim>\<open>Put(2, "c")\<close> does not look: it appends a second pair for key 2 to slot 2, and the
  table holds two pairs with key 2, the older one with the value "b".
\<close>

theorem Put_duplicates_key_after_resize:
  "fresh_run utils_hash 1 1 [PutCall 0 ''a'', PutCall 2 ''b'', PutCall 2 ''c''] =
     Inr \<lparr>buckets = [[(0, ''a''), (2, ''b'')], [], [(2, ''c'')], []], num_keys = 3,
          load_factor = 1\<rparr> \<and>
   filter (\<lambda>pair. fst pair = 2)
     (concat (buckets \<lparr>buckets = [[(0, ''a''), (2, ''b'')], [], [(2, ''c'')], []],
                       num_keys = 3, load_factor = 1\<rparr>)) =
     [(2, ''b''), (2, ''c'')]"
proof (intro conjI)
  show "fresh_run utils_hash 1 1 [PutCall 0 ''a'', PutCall 2 ''b'', PutCall 2 ''c''] =
     Inr \<lparr>buckets = [[(0, ''a''), (2, ''b'')], [], [(2, ''c'')], []], num_keys = 3,
          load_factor = 1\<rparr>"
    by code_simp
  show "filter (\<lambda>pair. fst pair = 2)
     (concat (buckets \<lparr>buckets = [[(0, ''a''), (2, ''b'')], [], [(2, ''c'')], []],
                       num_keys = 3, load_factor = 1\<rparr>)) =
     [(2, ''b''), (2, ''c'')]"
    by simp
qed

end
